theory Spec2Isabelle
  imports Main "HOL-Library.Word"
begin

unbundle bit_operations_syntax

section \<open>qreph: a note served once over HTTP\<close>

text \<open>
  The program is a single file, \<^verbatim>\<open>main.go\<close>. It reads a note, stores it in a
  \<^verbatim>\<open>noteStore\<close>, registers one HTTP route under a random path, prints the URL and
  waits until the note has been fetched once or the process is interrupted.
\<close>

subsection \<open>Byte slices\<close>

text \<open>
  A Go \<^verbatim>\<open>[]byte\<close> is either \<^verbatim>\<open>nil\<close> or a sequence of bytes; the handler tests
  \<^verbatim>\<open>note == nil\<close>, so the two are kept apart: \<open>None\<close> is the nil slice.
  \<^verbatim>\<open>len\<close> of the nil slice is 0.
\<close>

type_synonym byte = "8 word"
type_synonym bytes = "byte list option"

definition len :: "bytes \<Rightarrow> nat" where
  "len b = (case b of None \<Rightarrow> 0 | Some xs \<Rightarrow> length xs)"

subsection \<open>The note store\<close>

text \<open>
  \<^verbatim>\<open>
  type noteStore struct {
      content []byte
      once    sync.Once
      mu      sync.Mutex
  }
  \<close>
  Of \<^verbatim>\<open>sync.Once\<close> the model keeps whether \<^verbatim>\<open>Do\<close> has run, of
  \<^verbatim>\<open>sync.Mutex\<close> whether it is held.
\<close>

record noteStore =
  content :: bytes
  once_done :: bool
  mu_locked :: bool

text \<open>\<^verbatim>\<open>store := &noteStore{content: content}\<close>: the other fields have their zero value.\<close>

definition newStore :: "bytes \<Rightarrow> noteStore" where
  "newStore c = \<lparr>content = c, once_done = False, mu_locked = False\<rparr>"

text \<open>
  The three operations \<^verbatim>\<open>get\<close> performs on the store. \<^verbatim>\<open>mu.Lock()\<close> is enabled only
  while the mutex is free (a goroutine that finds it held waits), so it is partial.
\<close>

definition mu_Lock :: "noteStore \<Rightarrow> noteStore option" where
  "mu_Lock s = (if mu_locked s then None else Some (s\<lparr>mu_locked := True\<rparr>))"

definition mu_Unlock :: "noteStore \<Rightarrow> noteStore" where
  "mu_Unlock s = s\<lparr>mu_locked := False\<rparr>"

text \<open>
  \<^verbatim>\<open>
  var content []byte
  s.once.Do(func() {
      content = s.content
      s.content = nil
  })
  \<close>
  The result is the value of the local variable \<^verbatim>\<open>content\<close> afterwards: it keeps its
  zero value \<^verbatim>\<open>nil\<close> when \<^verbatim>\<open>Do\<close> does not run the function.
\<close>

definition once_Do :: "noteStore \<Rightarrow> bytes \<times> noteStore" where
  "once_Do s =
     (if once_done s then (None, s)
      else (content s, s\<lparr>content := None, once_done := True\<rparr>))"

text \<open>
  \<^verbatim>\<open>
  func (s *noteStore) get() []byte {
      s.mu.Lock()
      defer s.mu.Unlock()
      ...
      return content
  }
  \<close>
  One call run from start to end by a goroutine that finds the mutex free. \<open>None\<close> as
  the outer result means the call cannot start because the mutex is held.
\<close>

definition get :: "noteStore \<Rightarrow> (bytes \<times> noteStore) option" where
  "get s =
     (case mu_Lock s of
        None \<Rightarrow> None
      | Some s1 \<Rightarrow> (let (c, s2) = once_Do s1 in Some (c, mu_Unlock s2)))"

subsection \<open>The path token: \<^verbatim>\<open>base64.URLEncoding\<close>\<close>

text \<open>
  \<^verbatim>\<open>path := "/" + base64.URLEncoding.EncodeToString(randomBytes)\<close>.
  The encoder belongs to Go's standard library; it is modelled here as the library
  implements it: three bytes are packed into a 24-bit value and cut into four 6-bit
  indices into the URL alphabet; a last group of one or two bytes is filled up with the
  padding character \<^verbatim>\<open>=\<close>, which \<^verbatim>\<open>URLEncoding\<close> (unlike \<^verbatim>\<open>RawURLEncoding\<close>) emits.
\<close>

definition encodeURL :: string where
  "encodeURL = ''ABCDEFGHIJKLMNOPQRSTUVWXYZabcdefghijklmnopqrstuvwxyz0123456789-_''"

definition padChar :: char where
  "padChar = CHR ''=''"

definition sextet :: "nat \<Rightarrow> 32 word \<Rightarrow> char" where
  "sextet k v = encodeURL ! unat (drop_bit k v AND 0x3F)"

fun EncodeToString :: "byte list \<Rightarrow> string" where
  "EncodeToString (a # b # c # rest) =
     (let v = push_bit 16 (ucast a) OR push_bit 8 (ucast b) OR ucast c
      in sextet 18 v # sextet 12 v # sextet 6 v # sextet 0 v # EncodeToString rest)"
| "EncodeToString [a, b] =
     (let v = push_bit 16 (ucast a) OR push_bit 8 (ucast b)
      in [sextet 18 v, sextet 12 v, sextet 6 v, padChar])"
| "EncodeToString [a] =
     (let v = push_bit 16 (ucast a)
      in [sextet 18 v, sextet 12 v, padChar, padChar])"
| "EncodeToString [] = []"

text \<open>
  \<^verbatim>\<open>randomBytes := make([]byte, 32)\<close> followed by \<^verbatim>\<open>rand.Read(randomBytes)\<close>: the
  buffer has 32 zero bytes, and the source overwrites a prefix of it. The program
  ignores the count \<^verbatim>\<open>rand.Read\<close> returns and looks at the error only.
\<close>

definition read_into :: "byte list \<Rightarrow> byte list \<Rightarrow> byte list" where
  "read_into buf src = take (length buf) (src @ drop (length src) buf)"

definition make_bytes :: "nat \<Rightarrow> byte list" where
  "make_bytes n = replicate n 0"

subsection \<open>Text helpers\<close>

text \<open>\<^verbatim>\<open>strings.Join(elems, sep)\<close> on byte strings, and \<^verbatim>\<open>%d\<close> of a port number.\<close>

fun Join :: "byte list list \<Rightarrow> byte list \<Rightarrow> byte list" where
  "Join [] sep = []"
| "Join [x] sep = x"
| "Join (x # y # ys) sep = x @ sep @ Join (y # ys) sep"

fun show_nat :: "nat \<Rightarrow> string" where
  "show_nat n =
     (if n < 10 then [char_of (48 + n)]
      else show_nat (n div 10) @ [char_of (48 + n mod 10)])"

declare show_nat.simps [simp del]

subsection \<open>The process and its environment\<close>

text \<open>
  Everything \<^verbatim>\<open>main\<close> asks of the operating system is a field of the environment:
  the result of each call that can fail is \<open>Inl\<close> with the error's text or \<open>Inr\<close>
  with the value.
\<close>

datatype addr = UDPAddr string | OtherAddr

datatype event =
    Done \<comment> \<open>\<^verbatim>\<open>case <-done\<close>: the channel has been closed by the handler\<close>
  | Stop \<comment> \<open>\<^verbatim>\<open>case <-stop\<close>: SIGINT or SIGTERM has been delivered\<close>

datatype waiting =
    Woken event \<comment> \<open>the \<^verbatim>\<open>select\<close> statement has taken this case\<close>
  | ServerDied string \<comment> \<open>\<^verbatim>\<open>server.Serve\<close> has failed and its goroutine has called \<^verbatim>\<open>log.Fatalf\<close>\<close>
  | Never \<comment> \<open>neither channel ever becomes ready\<close>

text \<open>
  What the main goroutine finds at one instant of its wait: nothing, one of the two
  channels ready, both ready, or the process ended by the serving goroutine.
\<close>

datatype tick = Quiet | DoneReady | StopReady | BothReady | ServeError string

record env =
  stdin_stat :: "string + bool" \<comment> \<open>\<^verbatim>\<open>os.Stdin.Stat()\<close>; the value: is stdin a character device\<close>
  stdin_data :: "string + byte list" \<comment> \<open>\<^verbatim>\<open>io.ReadAll(os.Stdin)\<close>\<close>
  os_args :: "byte list list" \<comment> \<open>\<^verbatim>\<open>os.Args\<close>\<close>
  rand_src :: "byte list" \<comment> \<open>the bytes \<^verbatim>\<open>rand.Read\<close> writes\<close>
  rand_err :: "string option" \<comment> \<open>the error \<^verbatim>\<open>rand.Read\<close> returns\<close>
  net_listen :: "string + nat" \<comment> \<open>\<^verbatim>\<open>net.Listen("tcp", ":0")\<close>; the value: the port\<close>
  net_dial :: "string + addr" \<comment> \<open>\<^verbatim>\<open>net.Dial("udp", "8.8.8.8:80")\<close>; the value: the local address\<close>
  ticks :: "tick list" \<comment> \<open>the instants of the wait in \<^verbatim>\<open>select\<close>, in order\<close>
  select_pick :: event \<comment> \<open>the case \<^verbatim>\<open>select\<close> takes when both are ready (Go picks one at random)\<close>
  shutdown_err :: "string option" \<comment> \<open>the error \<^verbatim>\<open>server.Shutdown(ctx)\<close> returns\<close>

text \<open>What the main goroutine does, in order, and how the process ends.\<close>

datatype action =
    Println string \<comment> \<open>standard output\<close>
  | Log string \<comment> \<open>the \<^verbatim>\<open>log\<close> package, standard error\<close>
  | NewStore bytes \<comment> \<open>\<^verbatim>\<open>&noteStore{content: content}\<close>\<close>
  | RandRead nat \<comment> \<open>\<^verbatim>\<open>rand.Read\<close> on a buffer of that length\<close>
  | HandleFunc string \<comment> \<open>\<^verbatim>\<open>mux.HandleFunc(path, ...)\<close>\<close>
  | Listen \<comment> \<open>\<^verbatim>\<open>net.Listen\<close> has bound the port\<close>
  | GoServe \<comment> \<open>\<^verbatim>\<open>go func() { server.Serve(listener) ... }()\<close>\<close>
  | Dial \<comment> \<open>\<^verbatim>\<open>net.Dial\<close> in \<^verbatim>\<open>getOutboundIP\<close>\<close>
  | QR string \<comment> \<open>\<^verbatim>\<open>qrterminal.Generate(url, ...)\<close>\<close>
  | Notify \<comment> \<open>\<^verbatim>\<open>signal.Notify(stop, SIGINT, SIGTERM)\<close>\<close>
  | Select event \<comment> \<open>the \<^verbatim>\<open>select\<close> statement has taken this case\<close>
  | Shutdown nat \<comment> \<open>\<^verbatim>\<open>server.Shutdown\<close> under a timeout of that many seconds\<close>

datatype outcome =
    Exit nat \<comment> \<open>the process has ended with this status\<close>
  | Blocked \<comment> \<open>\<^verbatim>\<open>main\<close> waits in \<^verbatim>\<open>select\<close> for ever\<close>

type_synonym 'a step = "action list \<times> (outcome + 'a)"

definition andThen :: "'a step \<Rightarrow> ('a \<Rightarrow> 'b step) \<Rightarrow> 'b step" where
  "andThen m f =
     (case m of
        (t, Inl out) \<Rightarrow> (t, Inl out)
      | (t, Inr x) \<Rightarrow> (case f x of (t', r) \<Rightarrow> (t @ t', r)))"

text \<open>\<^verbatim>\<open>log.Fatal\<close> and \<^verbatim>\<open>log.Fatalf\<close> print the message and call \<^verbatim>\<open>os.Exit(1)\<close>.\<close>

definition Fatal :: "string \<Rightarrow> 'a step" where
  "Fatal msg = ([Log msg], Inl (Exit 1))"

definition continue :: "action list \<Rightarrow> 'a \<Rightarrow> 'a step" where
  "continue t x = (t, Inr x)"

text \<open>
  \<^verbatim>\<open>
  func getOutboundIP() (net.IP, error) {
      conn, err := net.Dial("udp", "8.8.8.8:80")
      if err != nil { return nil, err }
      defer conn.Close()
      localAddr, ok := conn.LocalAddr().(*net.UDPAddr)
      if !ok { return nil, errors.New("could not assert type to *net.UDPAddr") }
      return localAddr.IP, nil
  }
  \<close>
\<close>

definition getOutboundIP :: "env \<Rightarrow> string + string" where
  "getOutboundIP e =
     (case net_dial e of
        Inl err \<Rightarrow> Inl err
      | Inr OtherAddr \<Rightarrow> Inl ''could not assert type to *net.UDPAddr''
      | Inr (UDPAddr ip) \<Rightarrow> Inr ip)"

text \<open>Lines 58 to 79 of \<^verbatim>\<open>main\<close>: where the note comes from.\<close>

definition usage :: string where
  "usage = ''usage: qreph <text> | <command> | qreph''"

definition read_content :: "env \<Rightarrow> bytes step" where
  "read_content e =
     (case stdin_stat e of
        Inl err \<Rightarrow> Fatal (''failed to stat stdin: '' @ err)
      | Inr char_device \<Rightarrow>
          if \<not> char_device then
            (case stdin_data e of
               Inl err \<Rightarrow> Fatal (''failed to read from stdin: '' @ err)
             | Inr d \<Rightarrow> continue [] (Some d))
          else if length (os_args e) < 2 then ([Println usage], Inl (Exit 0))
          else continue [] (Some (Join (drop 1 (os_args e)) [0x20])))"

definition check_content :: "bytes \<Rightarrow> bytes step" where
  "check_content c = (if len c = 0 then Fatal ''no content provided'' else continue [] c)"

text \<open>Lines 81 to 87: the store and the path.\<close>

definition make_store :: "bytes \<Rightarrow> noteStore step" where
  "make_store c = continue [NewStore c] (newStore c)"

definition make_path :: "env \<Rightarrow> string step" where
  "make_path e =
     (let randomBytes = read_into (make_bytes 32) (rand_src e)
      in case rand_err e of
           Some err \<Rightarrow> ([RandRead 32, Log (''failed to generate random bytes: '' @ err)], Inl (Exit 1))
         | None \<Rightarrow> continue [RandRead 32] (CHR ''/'' # EncodeToString randomBytes))"

text \<open>
  Lines 89 to 117: the route is registered, the listener bound and the serving
  goroutine started. The value passed on is the port.
\<close>

definition start_server :: "env \<Rightarrow> string \<Rightarrow> nat step" where
  "start_server e path =
     (case net_listen e of
        Inl err \<Rightarrow> ([HandleFunc path, Log (''failed to create listener: '' @ err)], Inl (Exit 1))
      | Inr port \<Rightarrow> continue [HandleFunc path, Listen, GoServe] port)"

text \<open>Lines 119 to 127: the address is looked up and the URL shown.\<close>

definition announce :: "env \<Rightarrow> string \<Rightarrow> nat \<Rightarrow> unit step" where
  "announce e path port =
     (case getOutboundIP e of
        Inl err \<Rightarrow> ([Dial, Log (''failed to get outbound ip: '' @ err)], Inl (Exit 1))
      | Inr ip \<Rightarrow>
          (let url = ''http://'' @ ip @ '':'' @ show_nat port @ path
           in continue [Dial, Println (''Serving note at: '' @ url), QR url] ()))"

text \<open>
  Lines 129 to 142:
  \<^verbatim>\<open>
  stop := make(chan os.Signal, 1)
  signal.Notify(stop, syscall.SIGINT, syscall.SIGTERM)
  select {
  case <-done:
  case <-stop:
  }
  ctx, cancel := context.WithTimeout(context.Background(), 5*time.Second)
  defer cancel()
  if err := server.Shutdown(ctx); err != nil {
      log.Printf("server shutdown failed: %v", err)
  }
  \<close>
  After that \<^verbatim>\<open>main\<close> returns, which ends the process with status 0. While \<^verbatim>\<open>main\<close>
  waits, the serving goroutine may end the process by itself (line 115). A wait whose
  instants run out without a channel becoming ready is a wait that never ends.
\<close>

definition shutdown_timeout :: nat where
  "shutdown_timeout = 5"

fun await :: "tick list \<Rightarrow> event \<Rightarrow> waiting" where
  "await [] pick = Never"
| "await (Quiet # ts) pick = await ts pick"
| "await (DoneReady # ts) pick = Woken Done"
| "await (StopReady # ts) pick = Woken Stop"
| "await (BothReady # ts) pick = Woken pick"
| "await (ServeError err # ts) pick = ServerDied err"

definition lifecycle :: "env \<Rightarrow> unit step" where
  "lifecycle e =
     (case await (ticks e) (select_pick e) of
        Never \<Rightarrow> ([Notify], Inl Blocked)
      | ServerDied err \<Rightarrow> ([Notify, Log (''server failed: '' @ err)], Inl (Exit 1))
      | Woken ev \<Rightarrow>
          ([Notify, Select ev, Shutdown shutdown_timeout] @
           (case shutdown_err e of
              Some err \<Rightarrow> [Log (''server shutdown failed: '' @ err)]
            | None \<Rightarrow> []),
           Inl (Exit 0)))"

definition main :: "env \<Rightarrow> unit step" where
  "main e =
     andThen (read_content e) (\<lambda>content.
     andThen (check_content content) (\<lambda>content.
     andThen (make_store content) (\<lambda>store.
     andThen (make_path e) (\<lambda>path.
     andThen (start_server e path) (\<lambda>port.
     andThen (announce e path port) (\<lambda>_.
     lifecycle e))))))"

definition trace :: "env \<Rightarrow> action list" where
  "trace e = fst (main e)"

definition result :: "env \<Rightarrow> outcome + unit" where
  "result e = snd (main e)"

subsection \<open>The handler and its goroutines\<close>

text \<open>
  \<^verbatim>\<open>
  mux.HandleFunc(path, func(w http.ResponseWriter, r *http.Request) {
      note := store.get()
      if note == nil {
          http.NotFound(w, r)
          return
      }
      w.Header().Set("Content-Type", "text/plain; charset=utf-8")
      w.Write(note)
      close(done)
  })
  \<close>
  \<^verbatim>\<open>net/http\<close> runs the handler of every request in a goroutine of its own, so several
  runs of the handler, and of \<^verbatim>\<open>get\<close> inside it, are in progress at once. A goroutine is
  modelled by the place it has reached and the values of its local variables there.
  \<^verbatim>\<open>once.Do\<close> is one step of a goroutine: \<^verbatim>\<open>sync.Once\<close> lets no second caller in before
  the function has returned, and the goroutine holds the mutex besides.

  A response is what the handler hands to its \<^verbatim>\<open>ResponseWriter\<close>: the status, the headers
  and the bytes written. What \<^verbatim>\<open>net/http\<close> makes of it on the connection (for a HEAD
  request it sends the status and the headers and withholds the bytes) is not modelled.
\<close>

record response =
  status :: nat
  headers :: "(string \<times> string) list"
  body :: "byte list"

text \<open>
  \<^verbatim>\<open>http.NotFound\<close> replies through \<^verbatim>\<open>http.Error\<close>, which sets the two headers, the
  status 404 and the text \<^verbatim>\<open>404 page not found\<close> with a line feed.
\<close>

definition NotFound :: response where
  "NotFound =
     \<lparr>status = 404,
      headers = [(''Content-Type'', ''text/plain; charset=utf-8''),
                 (''X-Content-Type-Options'', ''nosniff'')],
      body = map of_char ''404 page not found'' @ [10]\<rparr>"

text \<open>
  The first \<^verbatim>\<open>w.Write\<close> sends the headers set so far with the status 200, then the
  bytes. Writing the nil slice writes no bytes.
\<close>

definition Write :: "bytes \<Rightarrow> response" where
  "Write note =
     \<lparr>status = 200,
      headers = [(''Content-Type'', ''text/plain; charset=utf-8'')],
      body = (case note of None \<Rightarrow> [] | Some bs \<Rightarrow> bs)\<rparr>"

datatype goroutine =
    AtLock \<comment> \<open>line 30: before \<^verbatim>\<open>s.mu.Lock()\<close>\<close>
  | AtOnce \<comment> \<open>line 33: holding the mutex, before \<^verbatim>\<open>s.once.Do\<close>\<close>
  | AtReturn bytes \<comment> \<open>line 37: the local \<^verbatim>\<open>content\<close>; the deferred \<^verbatim>\<open>Unlock\<close> runs on return\<close>
  | AtTest bytes \<comment> \<open>line 94: \<^verbatim>\<open>note\<close> holds what \<^verbatim>\<open>get\<close> returned\<close>
  | AtWrite bytes \<comment> \<open>lines 98 and 99: \<^verbatim>\<open>note\<close> is not nil\<close>
  | AtClose bytes response \<comment> \<open>line 100: the response has been written\<close>
  | Finished bytes response \<comment> \<open>the handler has returned\<close>

text \<open>
  The state shared by the goroutines: the store; the channel \<^verbatim>\<open>done\<close>, of which the
  model keeps the goroutines that have closed it, in order (the channel is closed once the
  list is not empty); whether the process has panicked (closing a closed channel is a
  run-time panic in Go); the number of signals waiting in \<^verbatim>\<open>stop\<close>, a channel with room
  for one; and the case \<^verbatim>\<open>select\<close> in \<^verbatim>\<open>main\<close> has taken, if it has taken one.
\<close>

record system =
  store :: noteStore
  closes :: "nat list"
  panicked :: bool
  stop_len :: nat
  main_at :: "event option"
  goroutines :: "goroutine list"

definition init :: "nat \<Rightarrow> bytes \<Rightarrow> system" where
  "init n c =
     \<lparr>store = newStore c, closes = [], panicked = False, stop_len = 0, main_at = None,
      goroutines = replicate n AtLock\<rparr>"

text \<open>
  One step of goroutine \<open>i\<close>, which is at \<open>g\<close>. \<open>None\<close>: the goroutine cannot move (it
  waits for the mutex, or it has finished).
\<close>

fun run :: "nat \<Rightarrow> goroutine \<Rightarrow> system \<Rightarrow> system option" where
  "run i AtLock \<sigma> =
     (case mu_Lock (store \<sigma>) of
        None \<Rightarrow> None
      | Some s \<Rightarrow> Some (\<sigma>\<lparr>store := s, goroutines := (goroutines \<sigma>)[i := AtOnce]\<rparr>))"
| "run i AtOnce \<sigma> =
     (let (c, s) = once_Do (store \<sigma>)
      in Some (\<sigma>\<lparr>store := s, goroutines := (goroutines \<sigma>)[i := AtReturn c]\<rparr>))"
| "run i (AtReturn c) \<sigma> =
     Some (\<sigma>\<lparr>store := mu_Unlock (store \<sigma>), goroutines := (goroutines \<sigma>)[i := AtTest c]\<rparr>)"
| "run i (AtTest note) \<sigma> =
     (if note = None then Some (\<sigma>\<lparr>goroutines := (goroutines \<sigma>)[i := Finished note NotFound]\<rparr>)
      else Some (\<sigma>\<lparr>goroutines := (goroutines \<sigma>)[i := AtWrite note]\<rparr>))"
| "run i (AtWrite note) \<sigma> =
     Some (\<sigma>\<lparr>goroutines := (goroutines \<sigma>)[i := AtClose note (Write note)]\<rparr>)"
| "run i (AtClose note r) \<sigma> =
     (if closes \<sigma> \<noteq> [] then Some (\<sigma>\<lparr>panicked := True\<rparr>)
      else Some (\<sigma>\<lparr>closes := closes \<sigma> @ [i], goroutines := (goroutines \<sigma>)[i := Finished note r]\<rparr>))"
| "run i (Finished note r) \<sigma> = None"

text \<open>
  What can happen next: a goroutine moves; the operating system delivers SIGINT or
  SIGTERM, which \<^verbatim>\<open>signal.Notify\<close> passes on to \<^verbatim>\<open>stop\<close> without blocking, so that the
  signal is dropped when the channel is full; or the \<^verbatim>\<open>select\<close> in \<^verbatim>\<open>main\<close> takes a case
  that is ready. The signals are those that arrive once \<^verbatim>\<open>main\<close> has called
  \<^verbatim>\<open>signal.Notify\<close>; an earlier one ends the process at once.
\<close>

datatype choice = Run nat | Signal | Take event

fun step :: "choice \<Rightarrow> system \<Rightarrow> system option" where
  "step (Run i) \<sigma> =
     (if i < length (goroutines \<sigma>) then run i (goroutines \<sigma> ! i) \<sigma> else None)"
| "step Signal \<sigma> =
     Some (if stop_len \<sigma> < 1 then \<sigma>\<lparr>stop_len := stop_len \<sigma> + 1\<rparr> else \<sigma>)"
| "step (Take Done) \<sigma> =
     (if main_at \<sigma> = None \<and> closes \<sigma> \<noteq> [] then Some (\<sigma>\<lparr>main_at := Some Done\<rparr>) else None)"
| "step (Take Stop) \<sigma> =
     (if main_at \<sigma> = None \<and> 0 < stop_len \<sigma>
      then Some (\<sigma>\<lparr>main_at := Some Stop, stop_len := stop_len \<sigma> - 1\<rparr>) else None)"

text \<open>A schedule is run from left to right; a choice that cannot move is passed over.\<close>

fun exec :: "choice list \<Rightarrow> system \<Rightarrow> system" where
  "exec [] \<sigma> = \<sigma>"
| "exec (x # xs) \<sigma> = exec xs (case step x \<sigma> of None \<Rightarrow> \<sigma> | Some \<sigma>' \<Rightarrow> \<sigma>')"

text \<open>What \<^verbatim>\<open>get\<close> has returned to a goroutine, once it has returned.\<close>

fun got :: "goroutine \<Rightarrow> bytes option" where
  "got AtLock = None"
| "got AtOnce = None"
| "got (AtReturn c) = None"
| "got (AtTest c) = Some c"
| "got (AtWrite c) = Some c"
| "got (AtClose c r) = Some c"
| "got (Finished c r) = Some c"

subsection \<open>Sample environments\<close>

text \<open>
  A run in which the note \<^verbatim>\<open>hi\<close> is piped in, every call succeeds, and an interrupt
  arrives at the second instant of the wait; then the variants in which one thing goes wrong.
\<close>

definition sample :: env where
  "sample =
     \<lparr>stdin_stat = Inr False, stdin_data = Inr [104, 105], os_args = [[113]],
      rand_src = [], rand_err = None, net_listen = Inr 8080,
      net_dial = Inr (UDPAddr ''10.0.0.1''),
      ticks = [Quiet, StopReady, DoneReady], select_pick = Done, shutdown_err = None\<rparr>"

definition empty_pipe :: env where
  "empty_pipe = sample\<lparr>stdin_data := Inr []\<rparr>"

definition no_arguments :: env where
  "no_arguments = sample\<lparr>stdin_stat := Inr True\<rparr>"


definition dial_fails :: env where
  "dial_fails = sample\<lparr>net_dial := Inl ''network is unreachable''\<rparr>"

definition shutdown_times_out :: env where
  "shutdown_times_out = sample\<lparr>shutdown_err := Some ''context deadline exceeded''\<rparr>"

definition nothing_happens :: env where
  "nothing_happens = sample\<lparr>ticks := [Quiet, Quiet]\<rparr>"

subsection \<open>What holds of the goroutines at every moment\<close>

text \<open>
  Where a goroutine is in the handler: whether it holds the mutex, whether it has been
  through \<^verbatim>\<open>once.Do\<close>, the value its local variable holds from then on, whether that
  value is the note, and whether it has closed \<^verbatim>\<open>done\<close>.
\<close>

fun holds :: "goroutine \<Rightarrow> bool" where
  "holds AtOnce = True"
| "holds (AtReturn c) = True"
| "holds g = False"

fun past :: "goroutine \<Rightarrow> bool" where
  "past AtLock = False"
| "past AtOnce = False"
| "past g = True"

fun carried :: "goroutine \<Rightarrow> bytes" where
  "carried AtLock = None"
| "carried AtOnce = None"
| "carried (AtReturn c) = c"
| "carried (AtTest c) = c"
| "carried (AtWrite c) = c"
| "carried (AtClose c r) = c"
| "carried (Finished c r) = c"

definition wins :: "goroutine \<Rightarrow> bool" where
  "wins g = (carried g \<noteq> None)"

fun closer :: "goroutine \<Rightarrow> bool" where
  "closer (Finished c r) = (c \<noteq> None)"
| "closer g = False"

text \<open>
  What the later places of the handler say about the goroutine \<open>i\<close> that is there, given
  the goroutines \<open>cl\<close> that have closed \<^verbatim>\<open>done\<close>.
\<close>

fun shape :: "nat \<Rightarrow> nat list \<Rightarrow> goroutine \<Rightarrow> bool" where
  "shape i cl (AtWrite c) = (c \<noteq> None)"
| "shape i cl (AtClose c r) = (c \<noteq> None \<and> r = Write c \<and> cl = [])"
| "shape i cl (Finished c r) =
     (if c = None then r = NotFound \<and> i \<notin> set cl else r = Write c \<and> cl = [i])"
| "shape i cl g = True"

text \<open>The positions of a list whose element has a property.\<close>

definition idx :: "('a \<Rightarrow> bool) \<Rightarrow> 'a list \<Rightarrow> nat set" where
  "idx P xs = {i. i < length xs \<and> P (xs ! i)}"

text \<open>
  The mutex is held by exactly one goroutine between \<^verbatim>\<open>Lock\<close> and the return of \<^verbatim>\<open>get\<close>,
  and by none when it is free.
\<close>

definition mutex_ok :: "system \<Rightarrow> bool" where
  "mutex_ok \<sigma> =
     (if mu_locked (store \<sigma>) then \<exists>h. idx holds (goroutines \<sigma>) = {h}
      else idx holds (goroutines \<sigma>) = {})"

text \<open>
  For a store constructed with \<open>c0\<close>: before \<^verbatim>\<open>once.Do\<close> has run, the store holds \<open>c0\<close>
  and no goroutine is past it; afterwards the store holds nil, and exactly one goroutine
  carries the note (none, had the store been constructed with nil).
\<close>

definition once_ok :: "bytes \<Rightarrow> system \<Rightarrow> bool" where
  "once_ok c0 \<sigma> =
     ((\<forall>i<length (goroutines \<sigma>).
         carried (goroutines \<sigma> ! i) = None \<or> carried (goroutines \<sigma> ! i) = c0) \<and>
      (if once_done (store \<sigma>)
       then content (store \<sigma>) = None \<and> idx past (goroutines \<sigma>) \<noteq> {} \<and>
            (if c0 = None then idx wins (goroutines \<sigma>) = {}
             else \<exists>w. idx wins (goroutines \<sigma>) = {w})
       else content (store \<sigma>) = c0 \<and> idx past (goroutines \<sigma>) = {} \<and>
            idx wins (goroutines \<sigma>) = {}))"

text \<open>
  The process has not panicked, every goroutine is as \<open>shape\<close> says, and \<^verbatim>\<open>done\<close> has
  been closed by no goroutine or by one that carries the note and has finished.
\<close>

definition handler_ok :: "system \<Rightarrow> bool" where
  "handler_ok \<sigma> =
     (\<not> panicked \<sigma> \<and>
      (\<forall>i<length (goroutines \<sigma>). shape i (closes \<sigma>) (goroutines \<sigma> ! i)) \<and>
      (closes \<sigma> = [] \<or> (\<exists>i. closes \<sigma> = [i] \<and> i \<in> idx closer (goroutines \<sigma>))))"

definition invariant :: "bytes \<Rightarrow> system \<Rightarrow> bool" where
  "invariant c0 \<sigma> =
     (mutex_ok \<sigma> \<and> once_ok c0 \<sigma> \<and> handler_ok \<sigma> \<and> stop_len \<sigma> \<le> 1 \<and>
      (main_at \<sigma> = Some Done \<longrightarrow> closes \<sigma> \<noteq> []))"

text \<open>The steps a goroutine still has to take, at most, and their sum over all goroutines.\<close>

fun remaining :: "goroutine \<Rightarrow> nat" where
  "remaining AtLock = 6"
| "remaining AtOnce = 5"
| "remaining (AtReturn c) = 4"
| "remaining (AtTest c) = 3"
| "remaining (AtWrite c) = 2"
| "remaining (AtClose c r) = 1"
| "remaining (Finished c r) = 0"

definition todo :: "system \<Rightarrow> nat" where
  "todo \<sigma> = sum_list (map remaining (goroutines \<sigma>))"

subsection \<open>Sample schedules\<close>

text \<open>
  Two requests for the path. Goroutine 0 takes the mutex; goroutine 1 finds it held and
  waits; goroutine 0 runs \<^verbatim>\<open>once.Do\<close> and returns from \<^verbatim>\<open>get\<close>; goroutine 1 goes through
  \<^verbatim>\<open>get\<close>; goroutine 0 writes the note and closes \<^verbatim>\<open>done\<close>; goroutine 1 answers 404. In
  the second schedule two signals arrive first, \<^verbatim>\<open>main\<close> takes the case \<^verbatim>\<open>done\<close> once both
  requests are handled, and a third signal arrives after that.
\<close>

definition two_requests :: "choice list" where
  "two_requests =
     [Run 0, Run 1, Run 0, Run 0, Run 1, Run 1, Run 1, Run 0, Run 0, Run 0, Run 1]"


definition served :: system where
  "served =
     \<lparr>store = \<lparr>content = None, once_done = True, mu_locked = False\<rparr>,
      closes = [0], panicked = False, stop_len = 0, main_at = None,
      goroutines =
        [Finished (Some [104, 105])
           \<lparr>status = 200, headers = [(''Content-Type'', ''text/plain; charset=utf-8'')],
            body = [104, 105]\<rparr>,
         Finished None NotFound]\<rparr>"


section \<open>Properties of the note store\<close>

text \<open>
  Claim C3. For every non-empty byte sequence \<open>P\<close>, a store constructed with \<open>P\<close>
  gives back exactly \<open>P\<close> on the first call of \<^verbatim>\<open>get\<close>.
\<close>

theorem get_first_returns_payload:
  "P \<noteq> [] \<Longrightarrow> map_option fst (get (newStore (Some P))) = Some (Some P)"
  by (simp add: get_def mu_Lock_def once_Do_def newStore_def)

theorem get_first_returns_payload_witness:
  "[72, 105] \<noteq> ([] :: byte list) \<and>
   map_option fst (get (newStore (Some [72, 105]))) = Some (Some [72, 105])"
  using get_first_returns_payload [of "[72, 105]"] by simp

text \<open>
  Claim C9. When \<^verbatim>\<open>get\<close> returns the note, the store no longer holds it: the field
  \<^verbatim>\<open>content\<close> is nil afterwards. It is cleared by the same \<^verbatim>\<open>once.Do\<close> that decides
  that this call is the one to receive the note, and apart from that decision and the
  cleared field the store is as it was before the call, the mutex free again.
\<close>

theorem get_clears_content:
  "get s = Some (Some p, s') \<Longrightarrow>
     content s' = None \<and> s' = s\<lparr>content := None, once_done := True\<rparr> \<and>
     (\<exists>s1. mu_Lock s = Some s1 \<and> \<not> once_done s1 \<and>
           once_Do s1 = (Some p, s1\<lparr>content := None, once_done := True\<rparr>) \<and>
           s' = mu_Unlock (s1\<lparr>content := None, once_done := True\<rparr>))"
  by (auto simp: get_def mu_Lock_def once_Do_def mu_Unlock_def split: if_splits)

theorem get_clears_content_witness:
  "get (newStore (Some [104, 105])) =
     Some (Some [104, 105], \<lparr>content = None, once_done = True, mu_locked = False\<rparr>) \<and>
   content \<lparr>content = None, once_done = True, mu_locked = False\<rparr> = None \<and>
   \<lparr>content = None, once_done = True, mu_locked = False\<rparr> =
     (newStore (Some [104, 105]))\<lparr>content := None, once_done := True\<rparr>"
proof -
  have h: "get (newStore (Some [104, 105])) =
      Some (Some [104, 105], \<lparr>content = None, once_done = True, mu_locked = False\<rparr>)"
    by (simp add: get_def mu_Lock_def once_Do_def mu_Unlock_def newStore_def)
  from get_clears_content [OF h] h show ?thesis by simp
qed

section \<open>Properties of the main goroutine\<close>

lemma main_unfold:
  "main e =
     (case read_content e of
        (t, Inl out) \<Rightarrow> (t, Inl out)
      | (t, Inr c) \<Rightarrow>
          (if len c = 0 then (t @ [Log ''no content provided''], Inl (Exit 1))
           else (case make_path e of
                 (t1, Inl out) \<Rightarrow> (t @ NewStore c # t1, Inl out)
               | (t1, Inr path) \<Rightarrow>
                   (case start_server e path of
                      (t2, Inl out) \<Rightarrow> (t @ NewStore c # t1 @ t2, Inl out)
                    | (t2, Inr port) \<Rightarrow>
                        (case announce e path port of
                           (t3, Inl out) \<Rightarrow> (t @ NewStore c # t1 @ t2 @ t3, Inl out)
                         | (t3, Inr u) \<Rightarrow>
                             (t @ NewStore c # t1 @ t2 @ t3 @ fst (lifecycle e),
                              snd (lifecycle e)))))))"
  by (simp add: main_def andThen_def check_content_def make_store_def Fatal_def continue_def
           split: prod.splits sum.splits)

lemma read_content_cases:
  "read_content e = (t, r) \<Longrightarrow>
     (t = [] \<and> (\<exists>c. r = Inr c)) \<or>
     (\<exists>m. (t = [Log m] \<or> t = [Println m]) \<and> (\<exists>out. r = Inl out))"
  by (auto simp: read_content_def Fatal_def continue_def split: sum.splits if_splits)

lemma make_path_cases:
  "make_path e = (t, r) \<Longrightarrow>
     (t = [RandRead 32] \<and> (\<exists>p. r = Inr p)) \<or>
     (\<exists>m. t = [RandRead 32, Log m] \<and> (\<exists>out. r = Inl out))"
  by (auto simp: make_path_def Let_def continue_def split: option.splits)

lemma start_server_cases:
  "start_server e p = (t, r) \<Longrightarrow>
     (t = [HandleFunc p, Listen, GoServe] \<and> (\<exists>n. r = Inr n)) \<or>
     (\<exists>m. t = [HandleFunc p, Log m] \<and> (\<exists>out. r = Inl out))"
  by (auto simp: start_server_def continue_def split: sum.splits)

lemma announce_cases:
  "announce e p n = (t, r) \<Longrightarrow>
     (\<exists>u. t = [Dial, Println u, QR (drop 17 u)] \<and> r = Inr ()) \<or>
     (\<exists>m. t = [Dial, Log m] \<and> (\<exists>out. r = Inl out))"
  by (auto simp: announce_def Let_def continue_def split: sum.splits)

lemma lifecycle_no_store: "NewStore c \<notin> set (fst (lifecycle e))"
  by (auto simp: lifecycle_def split: waiting.splits option.splits)

text \<open>
  Claim C4. When the note supplied is empty, whether piped in or given as arguments,
  the process logs \<^verbatim>\<open>no content provided\<close> and exits with status 1 having done nothing
  else: no store, no path, no listener. Hence every store the program ever constructs
  holds a note that is not empty.
\<close>

theorem empty_payload_is_fatal:
  "(read_content e = (t, Inr c) \<and> len c = 0 \<longrightarrow>
      main e = ([Log ''no content provided''], Inl (Exit 1))) \<and>
   (NewStore c' \<in> set (trace e) \<longrightarrow> 0 < len c')"
proof (intro conjI impI)
  assume a: "read_content e = (t, Inr c) \<and> len c = 0"
  then have "t = []" using read_content_cases [of e t "Inr c"] by auto
  with a show "main e = ([Log ''no content provided''], Inl (Exit 1))"
    by (simp add: main_unfold)
next
  assume a: "NewStore c' \<in> set (trace e)"
  obtain t r where rc: "read_content e = (t, r)" by (cases "read_content e")
  obtain t1 r1 where mp: "make_path e = (t1, r1)" by (cases "make_path e")
  from a rc read_content_cases [OF rc] obtain c where
    r: "t = []" "r = Inr c" and nz: "len c \<noteq> 0"
    by (auto simp: trace_def main_unfold split: if_splits)
  have "c' = c"
  proof (cases r1)
    case (Inl out)
    with a rc r nz mp make_path_cases [OF mp] show ?thesis
      by (auto simp: trace_def main_unfold)
  next
    case (Inr path)
    obtain t2 r2 where ss: "start_server e path = (t2, r2)" by (cases "start_server e path")
    show ?thesis
    proof (cases r2)
      case (Inl out)
      with a rc r nz mp Inr ss make_path_cases [OF mp] start_server_cases [OF ss] show ?thesis
        by (auto simp: trace_def main_unfold)
    next
      case port: (Inr port)
      obtain t3 r3 where an: "announce e path port = (t3, r3)"
        by (cases "announce e path port")
      from a rc r nz mp Inr ss port an make_path_cases [OF mp] start_server_cases [OF ss]
        announce_cases [OF an] lifecycle_no_store [of c' e]
      show ?thesis
        by (auto simp: trace_def main_unfold)
    qed
  qed
  with nz show "0 < len c'" by simp
qed

theorem empty_payload_is_fatal_witness:
  "read_content empty_pipe = ([], Inr (Some [])) \<and> len (Some []) = 0 \<and>
   main empty_pipe = ([Log ''no content provided''], Inl (Exit 1)) \<and>
   NewStore (Some [104, 105]) \<in> set (trace sample) \<and> 0 < len (Some [104, 105])"
proof -
  have h1: "read_content empty_pipe = ([], Inr (Some [])) \<and> len (Some []) = 0"
    by (simp add: read_content_def continue_def len_def empty_pipe_def sample_def)
  have h2: "NewStore (Some [104, 105]) \<in> set (trace sample)"
    by (simp add: trace_def main_unfold read_content_def continue_def len_def sample_def
          split: prod.splits sum.splits)
  from empty_payload_is_fatal [of empty_pipe "[]" "Some []" "Some [104, 105]"]
    empty_payload_is_fatal [of sample "[]" "Some []" "Some [104, 105]"] h1 h2
  show ?thesis by simp
qed

text \<open>
  Claim C10. With a terminal as standard input and no argument after the program's
  name, the process prints the usage line and ends with status 0, having constructed
  nothing. An empty note read from a pipe ends the process with status 1 instead.
\<close>

theorem usage_without_arguments:
  "(stdin_stat e = Inr True \<and> length (os_args e) < 2 \<longrightarrow>
      main e = ([Println usage], Inl (Exit 0))) \<and>
   (stdin_stat e = Inr False \<and> stdin_data e = Inr [] \<longrightarrow>
      main e = ([Log ''no content provided''], Inl (Exit 1)))"
  by (simp add: main_unfold read_content_def continue_def len_def)

theorem usage_without_arguments_witness:
  "stdin_stat no_arguments = Inr True \<and> length (os_args no_arguments) < 2 \<and>
   main no_arguments = ([Println usage], Inl (Exit 0)) \<and>
   stdin_stat empty_pipe = Inr False \<and> stdin_data empty_pipe = Inr [] \<and>
   main empty_pipe = ([Log ''no content provided''], Inl (Exit 1))"
proof -
  have h1: "stdin_stat no_arguments = Inr True \<and> length (os_args no_arguments) < 2"
    by (simp add: no_arguments_def sample_def)
  have h2: "stdin_stat empty_pipe = Inr False \<and> stdin_data empty_pipe = Inr []"
    by (simp add: empty_pipe_def sample_def)
  from usage_without_arguments [of no_arguments] usage_without_arguments [of empty_pipe] h1 h2
  show ?thesis by simp
qed

text \<open>
  Claim C8, as the code has it. When the address lookup fails, by the dial or by the
  type assertion, the process logs the error and exits with status 1: no URL is printed,
  no QR code drawn, no other address tried, and \<^verbatim>\<open>main\<close> never reaches its wait. By then the
  route is registered, the listener is bound and the serving goroutine has been started.
\<close>

theorem address_failure_is_fatal:
  assumes "getOutboundIP e = Inl err" and "Dial \<in> set (trace e)"
  shows "\<exists>c path. trace e = [NewStore c, RandRead 32, HandleFunc path, Listen, GoServe, Dial,
                              Log (''failed to get outbound ip: '' @ err)] \<and>
                  result e = Inl (Exit 1)"
proof -
  obtain t r where rc: "read_content e = (t, r)" by (cases "read_content e")
  obtain t1 r1 where mp: "make_path e = (t1, r1)" by (cases "make_path e")
  from assms(2) rc read_content_cases [OF rc] obtain c where
    r: "t = []" "r = Inr c" and nz: "len c \<noteq> 0"
    by (auto simp: trace_def main_unfold split: if_splits)
  from assms(2) rc r nz mp make_path_cases [OF mp] obtain path where
    r1: "t1 = [RandRead 32]" "r1 = Inr path"
    by (auto simp: trace_def main_unfold)
  obtain t2 r2 where ss: "start_server e path = (t2, r2)" by (cases "start_server e path")
  from assms(2) rc r nz mp r1 ss start_server_cases [OF ss] obtain port where
    r2: "t2 = [HandleFunc path, Listen, GoServe]" "r2 = Inr port"
    by (auto simp: trace_def main_unfold)
  have "announce e path port = ([Dial, Log (''failed to get outbound ip: '' @ err)], Inl (Exit 1))"
    using assms(1) by (simp add: announce_def)
  with rc r nz mp r1 ss r2 show ?thesis
    by (simp add: trace_def result_def main_unfold)
qed

theorem address_failure_is_fatal_witness:
  "getOutboundIP dial_fails = Inl ''network is unreachable'' \<and> Dial \<in> set (trace dial_fails) \<and>
   (\<exists>c path. trace dial_fails =
        [NewStore c, RandRead 32, HandleFunc path, Listen, GoServe, Dial,
         Log (''failed to get outbound ip: '' @ ''network is unreachable'')] \<and>
      result dial_fails = Inl (Exit 1))"
proof -
  have h1: "getOutboundIP dial_fails = Inl ''network is unreachable''"
    by (simp add: getOutboundIP_def dial_fails_def sample_def)
  have h2: "Dial \<in> set (trace dial_fails)"
    by (simp add: trace_def main_unfold read_content_def continue_def len_def make_path_def
          start_server_def announce_def getOutboundIP_def dial_fails_def sample_def)
  from address_failure_is_fatal [OF h1 h2] h1 h2 show ?thesis by simp
qed

lemma sextet_zero: "sextet k 0 = CHR ''A''"
  by (simp add: sextet_def encodeURL_def)

lemma EncodeToString_zeros:
  "EncodeToString (read_into (make_bytes 32) []) =
     ''AAAAAAAAAAAAAAAAAAAAAAAAAAAAAAAAAAAAAAAAAAA=''"
  by (simp add: read_into_def make_bytes_def eval_nat_numeral sextet_zero padChar_def)

text \<open>
  The claim as the specification words it, that the process aborts before serving,
  fails in this run: the address lookup fails after \<^verbatim>\<open>net.Listen\<close> and after the serving
  goroutine has been started.
\<close>

theorem serving_precedes_address_failure_counterexample:
  "getOutboundIP dial_fails = Inl ''network is unreachable'' \<and>
   result dial_fails = Inl (Exit 1) \<and>
   trace dial_fails =
     [NewStore (Some [104, 105]), RandRead 32,
      HandleFunc ''/AAAAAAAAAAAAAAAAAAAAAAAAAAAAAAAAAAAAAAAAAAA='', Listen, GoServe, Dial,
      Log ''failed to get outbound ip: network is unreachable'']"
  by (simp add: trace_def result_def main_def andThen_def read_content_def check_content_def
        make_store_def make_path_def start_server_def announce_def getOutboundIP_def
        continue_def Fatal_def len_def dial_fails_def sample_def EncodeToString_zeros)

lemma await_quiet: "await (replicate n Quiet @ ts) pick = await ts pick"
  by (induction n) simp_all

lemma await_all_quiet: "\<forall>t\<in>set ts. t = Quiet \<Longrightarrow> await ts pick = Never"
  by (induction ts) auto

text \<open>
  Claim C5. \<^verbatim>\<open>main\<close> waits through the instants at which neither channel is ready. At
  the first instant at which \<^verbatim>\<open>done\<close>, \<^verbatim>\<open>stop\<close> or both are ready it takes one case of the
  \<^verbatim>\<open>select\<close>, whatever comes later, calls \<^verbatim>\<open>server.Shutdown\<close> once under the timeout of five
  seconds, logs the error if that call returns one, and ends with status 0 either way.
  When neither channel ever becomes ready, it waits for ever and never calls
  \<^verbatim>\<open>server.Shutdown\<close>.
\<close>

theorem lifecycle_first_event:
  "(ticks e = replicate n Quiet @ t # rest \<and> (t = DoneReady \<or> t = StopReady \<or> t = BothReady) \<longrightarrow>
      (\<exists>ev. ev = (case t of DoneReady \<Rightarrow> Done | StopReady \<Rightarrow> Stop | _ \<Rightarrow> select_pick e) \<and>
         fst (lifecycle e) =
           [Notify, Select ev, Shutdown 5] @
           (case shutdown_err e of
              None \<Rightarrow> []
            | Some err \<Rightarrow> [Log (''server shutdown failed: '' @ err)]) \<and>
         count_list (fst (lifecycle e)) (Shutdown 5) = 1 \<and>
         snd (lifecycle e) = Inl (Exit 0))) \<and>
   ((\<forall>t\<in>set (ticks e). t = Quiet) \<longrightarrow> lifecycle e = ([Notify], Inl Blocked))"
  by (auto simp: lifecycle_def await_quiet await_all_quiet shutdown_timeout_def
      split: option.splits)

theorem lifecycle_first_event_witness:
  "ticks shutdown_times_out = replicate 1 Quiet @ StopReady # [DoneReady] \<and>
   lifecycle shutdown_times_out =
     ([Notify, Select Stop, Shutdown 5, Log ''server shutdown failed: context deadline exceeded''],
      Inl (Exit 0)) \<and>
   lifecycle sample = ([Notify, Select Stop, Shutdown 5], Inl (Exit 0)) \<and>
   list_all (\<lambda>t. t = Quiet) (ticks nothing_happens) \<and>
   lifecycle nothing_happens = ([Notify], Inl Blocked)"
proof -
  have h1: "ticks shutdown_times_out = replicate 1 Quiet @ StopReady # [DoneReady]"
    by (simp add: shutdown_times_out_def sample_def)
  have h2: "ticks sample = replicate 1 Quiet @ StopReady # [DoneReady]"
    by (simp add: sample_def)
  have h3: "\<forall>t\<in>set (ticks nothing_happens). t = Quiet"
    by (simp add: nothing_happens_def sample_def)
  have e1: "shutdown_err shutdown_times_out = Some ''context deadline exceeded''"
    by (simp add: shutdown_times_out_def)
  have e2: "shutdown_err sample = None"
    by (simp add: sample_def)
  from lifecycle_first_event [of shutdown_times_out 1 StopReady "[DoneReady]"]
    lifecycle_first_event [of sample 1 StopReady "[DoneReady]"]
    lifecycle_first_event [of nothing_happens 0 Quiet "[]"]
    h1 h2 h3 e1 e2
  show ?thesis
    by (simp add: prod_eq_iff list_all_iff)
qed

section \<open>Properties of the path token\<close>








section \<open>Properties of the goroutines\<close>

subsection \<open>The invariant is kept by every step\<close>

lemma idx_update:
  "k < length xs \<Longrightarrow>
     idx P (xs[k := y]) = (if P y then insert k (idx P xs) else idx P xs - {k})"
  by (auto simp: idx_def nth_list_update)

lemma idx_update_same:
  "k < length xs \<Longrightarrow> P y = P (xs ! k) \<Longrightarrow> idx P (xs[k := y]) = idx P xs"
  by (auto simp: idx_def nth_list_update)

lemma idx_mem: "i \<in> idx P xs \<longleftrightarrow> i < length xs \<and> P (xs ! i)"
  by (simp add: idx_def)

lemma run_length:
  "run k g \<sigma> = Some \<sigma>' \<Longrightarrow> length (goroutines \<sigma>') = length (goroutines \<sigma>)"
  by (cases g) (auto simp: Let_def split: option.splits prod.splits if_splits)

lemma mutex_ok_run:
  assumes "mutex_ok \<sigma>" and "k < length (goroutines \<sigma>)"
    and "run k (goroutines \<sigma> ! k) \<sigma> = Some \<sigma>'"
  shows "mutex_ok \<sigma>'"
proof (cases "goroutines \<sigma> ! k")
  case AtLock
  with assms show ?thesis
    by (auto simp: mutex_ok_def mu_Lock_def idx_update split: if_splits)
next
  case AtOnce
  with assms have "k \<in> idx holds (goroutines \<sigma>)" by (simp add: idx_mem)
  with assms AtOnce show ?thesis
    by (auto simp: mutex_ok_def once_Do_def idx_update split: if_splits)
next
  case (AtReturn c)
  with assms have "k \<in> idx holds (goroutines \<sigma>)" by (simp add: idx_mem)
  with assms AtReturn show ?thesis
    by (auto simp: mutex_ok_def mu_Unlock_def idx_update split: if_splits)
next
  case (AtTest c)
  with assms show ?thesis
    by (auto simp: mutex_ok_def idx_update_same split: if_splits)
next
  case (AtWrite c)
  with assms show ?thesis
    by (auto simp: mutex_ok_def idx_update_same split: if_splits)
next
  case (AtClose c r)
  with assms show ?thesis
    by (auto simp: mutex_ok_def idx_update_same split: if_splits)
next
  case (Finished c r)
  with assms show ?thesis by simp
qed

lemma once_ok_same:
  assumes ok: "once_ok c0 \<sigma>" and k: "k < length (goroutines \<sigma>)"
    and c: "carried g' = carried (goroutines \<sigma> ! k)"
    and p1: "past (goroutines \<sigma> ! k) \<longrightarrow> past g'"
    and p2: "past g' \<longrightarrow> past (goroutines \<sigma> ! k) \<or> once_done (store \<sigma>)"
    and gs: "goroutines \<sigma>' = (goroutines \<sigma>)[k := g']"
    and st: "content (store \<sigma>') = content (store \<sigma>)"
      "once_done (store \<sigma>') = once_done (store \<sigma>)"
  shows "once_ok c0 \<sigma>'"
proof -
  have w: "idx wins (goroutines \<sigma>') = idx wins (goroutines \<sigma>)"
    using k c by (simp add: gs idx_update_same wins_def)
  have q1: "idx past (goroutines \<sigma>') \<noteq> {}" if "idx past (goroutines \<sigma>) \<noteq> {}"
    using that k p1 by (auto simp: gs idx_update idx_mem split: if_splits)
  have q2: "idx past (goroutines \<sigma>') = {}"
    if "idx past (goroutines \<sigma>) = {}" "\<not> once_done (store \<sigma>)"
    using that k p2 by (auto simp: gs idx_update idx_mem)
  have a: "carried (goroutines \<sigma>' ! i) = carried (goroutines \<sigma> ! i)"
    if "i < length (goroutines \<sigma>)" for i
    using that k c by (cases "i = k") (simp_all add: gs)
  have l: "length (goroutines \<sigma>') = length (goroutines \<sigma>)"
    by (simp add: gs)
  from ok q1 q2 show ?thesis
    unfolding once_ok_def w st l by (auto simp: a)
qed

lemma once_ok_run:
  assumes "once_ok c0 \<sigma>" and "k < length (goroutines \<sigma>)"
    and "run k (goroutines \<sigma> ! k) \<sigma> = Some \<sigma>'"
  shows "once_ok c0 \<sigma>'"
proof (cases "goroutines \<sigma> ! k")
  case AtLock
  with assms(3) have "goroutines \<sigma>' = (goroutines \<sigma>)[k := AtOnce]"
    "content (store \<sigma>') = content (store \<sigma>)" "once_done (store \<sigma>') = once_done (store \<sigma>)"
    by (auto simp: mu_Lock_def split: if_splits)
  with assms(1,2) AtLock show ?thesis
    by - (rule once_ok_same [where g' = AtOnce and k = k and \<sigma> = \<sigma>], simp_all)
next
  case AtOnce
  show ?thesis
  proof (cases "once_done (store \<sigma>)")
    case True
    with assms(3) AtOnce have "goroutines \<sigma>' = (goroutines \<sigma>)[k := AtReturn None]"
      "content (store \<sigma>') = content (store \<sigma>)" "once_done (store \<sigma>') = once_done (store \<sigma>)"
      by (auto simp: once_Do_def)
    with assms(1,2) AtOnce True show ?thesis
      by - (rule once_ok_same [where g' = "AtReturn None" and k = k and \<sigma> = \<sigma>], simp_all)
  next
    case False
    with assms(1) have old: "content (store \<sigma>) = c0" "idx past (goroutines \<sigma>) = {}"
      "idx wins (goroutines \<sigma>) = {}"
      "\<forall>i<length (goroutines \<sigma>). carried (goroutines \<sigma> ! i) = None \<or>
         carried (goroutines \<sigma> ! i) = c0"
      by (simp_all add: once_ok_def)
    from assms(3) AtOnce False old(1) have new:
      "goroutines \<sigma>' = (goroutines \<sigma>)[k := AtReturn c0]"
      "content (store \<sigma>') = None" "once_done (store \<sigma>')"
      by (auto simp: once_Do_def)
    have w: "idx wins (goroutines \<sigma>') = (if c0 = None then {} else {k})"
      using assms(2) old(3) by (simp add: new(1) idx_update wins_def)
    have q: "idx past (goroutines \<sigma>') = {k}"
      using assms(2) old(2) by (simp add: new(1) idx_update)
    have a: "\<forall>i<length (goroutines \<sigma>).
        carried (goroutines \<sigma>' ! i) = None \<or> carried (goroutines \<sigma>' ! i) = c0"
      using assms(2) old(4) by (simp add: new(1) nth_list_update)
    have l: "length (goroutines \<sigma>') = length (goroutines \<sigma>)"
      by (simp add: new(1))
    show ?thesis
    proof (cases "c0 = None")
      case True
      with w have "idx wins (goroutines \<sigma>') = {}" by simp
      with new(2,3) q a True show ?thesis
        unfolding once_ok_def l by simp
    next
      case False
      with w have "idx wins (goroutines \<sigma>') = {k}" by simp
      with new(2,3) q a False show ?thesis
        unfolding once_ok_def l by simp
    qed
  qed
next
  case (AtReturn c)
  with assms(3) have "goroutines \<sigma>' = (goroutines \<sigma>)[k := AtTest c]"
    "content (store \<sigma>') = content (store \<sigma>)" "once_done (store \<sigma>') = once_done (store \<sigma>)"
    by (auto simp: mu_Unlock_def)
  with assms(1,2) AtReturn show ?thesis
    by - (rule once_ok_same [where g' = "AtTest c" and k = k and \<sigma> = \<sigma>], simp_all)
next
  case (AtTest c)
  with assms(3) have "\<exists>g'. goroutines \<sigma>' = (goroutines \<sigma>)[k := g'] \<and> carried g' = c \<and> past g'"
    "content (store \<sigma>') = content (store \<sigma>)" "once_done (store \<sigma>') = once_done (store \<sigma>)"
    by (auto split: if_splits)
  then obtain g' where g': "goroutines \<sigma>' = (goroutines \<sigma>)[k := g']" "carried g' = c" "past g'"
    and st: "content (store \<sigma>') = content (store \<sigma>)" "once_done (store \<sigma>') = once_done (store \<sigma>)"
    by blast
  with assms(1,2) AtTest show ?thesis
    by - (rule once_ok_same [where g' = g' and k = k and \<sigma> = \<sigma>], simp_all)
next
  case (AtWrite c)
  with assms(3) have "goroutines \<sigma>' = (goroutines \<sigma>)[k := AtClose c (Write c)]"
    "content (store \<sigma>') = content (store \<sigma>)" "once_done (store \<sigma>') = once_done (store \<sigma>)"
    by auto
  with assms(1,2) AtWrite show ?thesis
    by - (rule once_ok_same [where g' = "AtClose c (Write c)" and k = k and \<sigma> = \<sigma>], simp_all)
next
  case (AtClose c r)
  show ?thesis
  proof (cases "closes \<sigma> = []")
    case True
    with assms(3) AtClose have "goroutines \<sigma>' = (goroutines \<sigma>)[k := Finished c r]"
      "content (store \<sigma>') = content (store \<sigma>)" "once_done (store \<sigma>') = once_done (store \<sigma>)"
      by auto
    with assms(1,2) AtClose show ?thesis
      by - (rule once_ok_same [where g' = "Finished c r" and k = k and \<sigma> = \<sigma>], simp_all)
  next
    case False
    with assms(3) AtClose have "\<sigma>' = \<sigma>\<lparr>panicked := True\<rparr>" by simp
    with assms(1) show ?thesis by (simp add: once_ok_def)
  qed
next
  case (Finished c r)
  with assms show ?thesis by simp
qed

lemma closer_wins: "closer g \<Longrightarrow> wins g"
  by (cases g) (simp_all add: wins_def)

lemma once_ok_unique:
  assumes "once_ok c0 \<sigma>" and "i \<in> idx wins (goroutines \<sigma>)" and "j \<in> idx wins (goroutines \<sigma>)"
  shows "i = j"
  using assms by (auto simp: once_ok_def split: if_splits)

lemma handler_ok_same:
  assumes ok: "handler_ok \<sigma>" and k: "k < length (goroutines \<sigma>)"
    and gs: "goroutines \<sigma>' = (goroutines \<sigma>)[k := g']"
    and cl: "closes \<sigma>' = closes \<sigma>" and pa: "panicked \<sigma>' = panicked \<sigma>"
    and sh: "shape k (closes \<sigma>) g'"
    and nc: "\<not> closer (goroutines \<sigma> ! k)"
  shows "handler_ok \<sigma>'"
proof -
  have l: "length (goroutines \<sigma>') = length (goroutines \<sigma>)"
    by (simp add: gs)
  have a: "\<forall>i<length (goroutines \<sigma>). shape i (closes \<sigma>) (goroutines \<sigma>' ! i)"
    using ok k sh by (simp add: handler_ok_def gs nth_list_update)
  have b: "i \<in> idx closer (goroutines \<sigma>')" if "i \<in> idx closer (goroutines \<sigma>)" for i
    using that k nc by (auto simp: gs idx_update idx_mem)
  from ok a b show ?thesis
    unfolding handler_ok_def l cl pa by auto
qed

lemma handler_ok_run:
  assumes h: "handler_ok \<sigma>" and o: "once_ok c0 \<sigma>" and k: "k < length (goroutines \<sigma>)"
    and r: "run k (goroutines \<sigma> ! k) \<sigma> = Some \<sigma>'"
  shows "handler_ok \<sigma>'"
proof (cases "goroutines \<sigma> ! k")
  case AtLock
  with r have "goroutines \<sigma>' = (goroutines \<sigma>)[k := AtOnce]" "closes \<sigma>' = closes \<sigma>"
    "panicked \<sigma>' = panicked \<sigma>"
    by (auto simp: mu_Lock_def split: if_splits)
  with h k AtLock show ?thesis
    by - (rule handler_ok_same [where g' = AtOnce and k = k and \<sigma> = \<sigma>], simp_all)
next
  case AtOnce
  with r obtain c where "goroutines \<sigma>' = (goroutines \<sigma>)[k := AtReturn c]"
    "closes \<sigma>' = closes \<sigma>" "panicked \<sigma>' = panicked \<sigma>"
    by (auto simp: once_Do_def split: if_splits)
  with h k AtOnce show ?thesis
    by - (rule handler_ok_same [where g' = "AtReturn c" and k = k and \<sigma> = \<sigma>], simp_all)
next
  case (AtReturn c)
  with r have "goroutines \<sigma>' = (goroutines \<sigma>)[k := AtTest c]" "closes \<sigma>' = closes \<sigma>"
    "panicked \<sigma>' = panicked \<sigma>"
    by auto
  with h k AtReturn show ?thesis
    by - (rule handler_ok_same [where g' = "AtTest c" and k = k and \<sigma> = \<sigma>], simp_all)
next
  case (AtTest c)
  show ?thesis
  proof (cases "c = None")
    case True
    with r AtTest have new: "goroutines \<sigma>' = (goroutines \<sigma>)[k := Finished None NotFound]"
      "closes \<sigma>' = closes \<sigma>" "panicked \<sigma>' = panicked \<sigma>"
      by auto
    have "k \<notin> set (closes \<sigma>)"
      using h AtTest by (auto simp: handler_ok_def idx_mem)
    with h k AtTest new show ?thesis
      by - (rule handler_ok_same [where g' = "Finished None NotFound" and k = k and \<sigma> = \<sigma>], simp_all)
  next
    case False
    with r AtTest have "goroutines \<sigma>' = (goroutines \<sigma>)[k := AtWrite c]"
      "closes \<sigma>' = closes \<sigma>" "panicked \<sigma>' = panicked \<sigma>"
      by auto
    with h k AtTest False show ?thesis
      by - (rule handler_ok_same [where g' = "AtWrite c" and k = k and \<sigma> = \<sigma>], simp_all)
  qed
next
  case (AtWrite c)
  with r have new: "goroutines \<sigma>' = (goroutines \<sigma>)[k := AtClose c (Write c)]"
    "closes \<sigma>' = closes \<sigma>" "panicked \<sigma>' = panicked \<sigma>"
    by auto
  from h k AtWrite have c: "c \<noteq> None"
    by (auto simp: handler_ok_def)
  with k AtWrite have kw: "k \<in> idx wins (goroutines \<sigma>)"
    by (simp add: idx_mem wins_def)
  have "closes \<sigma> = []"
  proof (rule ccontr)
    assume "closes \<sigma> \<noteq> []"
    with h obtain i where i: "i \<in> idx closer (goroutines \<sigma>)"
      by (auto simp: handler_ok_def)
    then have "i \<in> idx wins (goroutines \<sigma>)"
      by (simp add: idx_mem closer_wins)
    with o kw have "i = k" using once_ok_unique by blast
    with i AtWrite show False by (simp add: idx_mem)
  qed
  with h k AtWrite new c show ?thesis
    by - (rule handler_ok_same [where g' = "AtClose c (Write c)" and k = k and \<sigma> = \<sigma>], simp_all)
next
  case (AtClose c rs)
  from h k AtClose have sh: "c \<noteq> None" "rs = Write c" "closes \<sigma> = []"
    using handler_ok_def [of \<sigma>] by auto
  with r AtClose have new: "goroutines \<sigma>' = (goroutines \<sigma>)[k := Finished c rs]"
    "closes \<sigma>' = [k]" "panicked \<sigma>' = panicked \<sigma>"
    by auto
  from k AtClose sh have kw: "k \<in> idx wins (goroutines \<sigma>)"
    by (simp add: idx_mem wins_def)
  have others: "shape i [k] (goroutines \<sigma> ! i)"
    if "i < length (goroutines \<sigma>)" "i \<noteq> k" for i
  proof -
    have nw: "\<not> wins (goroutines \<sigma> ! i)"
    proof
      assume "wins (goroutines \<sigma> ! i)"
      with that have "i \<in> idx wins (goroutines \<sigma>)" by (simp add: idx_mem)
      with o kw have "i = k" using once_ok_unique by blast
      with that show False by simp
    qed
    from h that have "shape i [] (goroutines \<sigma> ! i)"
      by (simp add: handler_ok_def sh)
    with nw that show ?thesis
      by (cases "goroutines \<sigma> ! i") (simp_all add: wins_def)
  qed
  have l: "length (goroutines \<sigma>') = length (goroutines \<sigma>)"
    by (simp add: new)
  have "\<forall>i<length (goroutines \<sigma>). shape i [k] (goroutines \<sigma>' ! i)"
    using others k sh by (simp add: new nth_list_update)
  moreover have "k \<in> idx closer (goroutines \<sigma>')"
    using k sh by (simp add: new idx_mem)
  ultimately show ?thesis
    using h unfolding handler_ok_def l new by simp
next
  case (Finished c rs)
  with r show ?thesis by simp
qed

lemma invariant_init: "invariant c0 (init n c0)"
  by (simp add: invariant_def mutex_ok_def once_ok_def handler_ok_def init_def newStore_def
        idx_def wins_def)

lemma run_main:
  "run k g \<sigma> = Some \<sigma>' \<Longrightarrow> stop_len \<sigma>' = stop_len \<sigma> \<and> main_at \<sigma>' = main_at \<sigma> \<and>
     (closes \<sigma> \<noteq> [] \<longrightarrow> closes \<sigma>' \<noteq> [])"
  by (cases g) (auto simp: Let_def split: option.splits prod.splits if_splits)

lemma ok_stop_len:
  "mutex_ok (\<sigma>\<lparr>stop_len := m\<rparr>) = mutex_ok \<sigma>"
  "once_ok c0 (\<sigma>\<lparr>stop_len := m\<rparr>) = once_ok c0 \<sigma>"
  "handler_ok (\<sigma>\<lparr>stop_len := m\<rparr>) = handler_ok \<sigma>"
  by (simp_all add: mutex_ok_def once_ok_def handler_ok_def)

lemma ok_main_at:
  "mutex_ok (\<sigma>\<lparr>main_at := a\<rparr>) = mutex_ok \<sigma>"
  "once_ok c0 (\<sigma>\<lparr>main_at := a\<rparr>) = once_ok c0 \<sigma>"
  "handler_ok (\<sigma>\<lparr>main_at := a\<rparr>) = handler_ok \<sigma>"
  by (simp_all add: mutex_ok_def once_ok_def handler_ok_def)

lemma invariant_step:
  assumes "invariant c0 \<sigma>" and "step x \<sigma> = Some \<sigma>'"
  shows "invariant c0 \<sigma>'"
proof (cases x)
  case (Run k)
  with assms(2) have k: "k < length (goroutines \<sigma>)"
    and r: "run k (goroutines \<sigma> ! k) \<sigma> = Some \<sigma>'"
    by (auto split: if_splits)
  from assms(1) have m: "mutex_ok \<sigma>" and o: "once_ok c0 \<sigma>" and h: "handler_ok \<sigma>"
    by (simp_all add: invariant_def)
  have "mutex_ok \<sigma>'" "once_ok c0 \<sigma>'" "handler_ok \<sigma>'"
    using mutex_ok_run [OF m k r] once_ok_run [OF o k r] handler_ok_run [OF h o k r]
    by simp_all
  with assms(1) run_main [OF r] show ?thesis
    by (simp add: invariant_def)
next
  case Signal
  with assms(2) have "\<sigma>' = \<sigma> \<or> (stop_len \<sigma> = 0 \<and> \<sigma>' = \<sigma>\<lparr>stop_len := 1\<rparr>)"
    by (auto split: if_splits)
  with assms(1) show ?thesis
    by (auto simp: invariant_def ok_stop_len)
next
  case (Take ev)
  show ?thesis
  proof (cases ev)
    case Done
    with Take assms(2) have "closes \<sigma> \<noteq> []" "\<sigma>' = \<sigma>\<lparr>main_at := Some Done\<rparr>"
      by (auto split: if_splits)
    with assms(1) show ?thesis
      by (simp add: invariant_def ok_main_at)
  next
    case Stop
    with Take assms(2) have "\<sigma>' = \<sigma>\<lparr>main_at := Some Stop, stop_len := stop_len \<sigma> - 1\<rparr>"
      by (auto split: if_splits)
    with assms(1) show ?thesis
      by (simp add: invariant_def ok_main_at ok_stop_len)
  qed
qed

lemma invariant_exec: "invariant c0 \<sigma> \<Longrightarrow> invariant c0 (exec xs \<sigma>)"
proof (induction xs arbitrary: \<sigma>)
  case Nil
  then show ?case by simp
next
  case (Cons x xs)
  show ?case
  proof (cases "step x \<sigma>")
    case None
    with Cons show ?thesis by simp
  next
    case (Some \<sigma>')
    from Cons.prems Some have "invariant c0 \<sigma>'" by (rule invariant_step)
    with Cons.IH Some show ?thesis by simp
  qed
qed

lemma step_length:
  assumes "step x \<sigma> = Some \<sigma>'"
  shows "length (goroutines \<sigma>') = length (goroutines \<sigma>)"
proof (cases x)
  case (Run k)
  with assms show ?thesis by (auto simp: run_length split: if_splits)
next
  case Signal
  with assms show ?thesis by (auto split: if_splits)
next
  case (Take ev)
  with assms show ?thesis by (cases ev) (auto split: if_splits)
qed

lemma exec_length: "length (goroutines (exec xs \<sigma>)) = length (goroutines \<sigma>)"
  by (induction xs arbitrary: \<sigma>) (auto simp: step_length split: option.splits)


lemma reachable:
  "\<sigma> = exec xs (init n c0) \<Longrightarrow> invariant c0 \<sigma> \<and> length (goroutines \<sigma>) = n"
proof -
  assume s: "\<sigma> = exec xs (init n c0)"
  have "invariant c0 (exec xs (init n c0))"
    by (rule invariant_exec) (rule invariant_init)
  moreover have "length (goroutines (exec xs (init n c0))) = n"
    by (simp add: exec_length init_def)
  ultimately show ?thesis by (simp add: s)
qed

subsection \<open>Every goroutine can finish\<close>

text \<open>
  While a goroutine has a step left, one of them can move: the one that holds the mutex,
  or any of them when the mutex is free. Each move brings the sum of the steps left down.
\<close>

lemma sum_list_update_less:
  "k < length gs \<Longrightarrow> remaining g' < remaining (gs ! k) \<Longrightarrow>
     sum_list (map remaining (gs[k := g'])) < sum_list (map remaining gs)"
proof (induction gs arbitrary: k)
  case Nil
  then show ?case by simp
next
  case (Cons g gs)
  then show ?case by (cases k) auto
qed

lemma sum_list_pos:
  "0 < sum_list (map remaining gs) \<Longrightarrow> \<exists>k<length gs. 0 < remaining (gs ! k)"
proof (induction gs)
  case Nil
  then show ?case by simp
next
  case (Cons g gs)
  show ?case
  proof (cases "0 < remaining g")
    case True
    then have "0 < length (g # gs) \<and> 0 < remaining ((g # gs) ! 0)" by simp
    then show ?thesis by blast
  next
    case False
    with Cons obtain k where "k < length gs" "0 < remaining (gs ! k)" by auto
    then have "Suc k < length (g # gs) \<and> 0 < remaining ((g # gs) ! Suc k)" by simp
    then show ?thesis by blast
  qed
qed

lemma run_progress:
  assumes h: "handler_ok \<sigma>" and m: "mutex_ok \<sigma>" and k: "k < length (goroutines \<sigma>)"
    and g: "0 < remaining (goroutines \<sigma> ! k)"
    and free: "goroutines \<sigma> ! k = AtLock \<longrightarrow> \<not> mu_locked (store \<sigma>)"
  shows "\<exists>\<sigma>'. step (Run k) \<sigma> = Some \<sigma>' \<and> todo \<sigma>' < todo \<sigma>"
proof -
  have "\<exists>\<sigma>' g'. run k (goroutines \<sigma> ! k) \<sigma> = Some \<sigma>' \<and>
      goroutines \<sigma>' = (goroutines \<sigma>)[k := g'] \<and> remaining g' < remaining (goroutines \<sigma> ! k)"
  proof (cases "goroutines \<sigma> ! k")
    case AtLock
    with free show ?thesis
      by (auto simp: mu_Lock_def intro!: exI [where x = AtOnce])
  next
    case AtOnce
    then show ?thesis
      by (cases "once_done (store \<sigma>)")
        (auto simp: once_Do_def intro!: exI [where x = "AtReturn _"])
  next
    case (AtReturn c)
    then show ?thesis
      by (auto intro!: exI [where x = "AtTest c"])
  next
    case (AtTest c)
    show ?thesis
    proof (cases "c = None")
      case True
      with AtTest show ?thesis
        by (auto intro!: exI [where x = "Finished None NotFound"])
    next
      case False
      with AtTest show ?thesis
        by (auto intro!: exI [where x = "AtWrite c"])
    qed
  next
    case (AtWrite c)
    then show ?thesis
      by (auto intro!: exI [where x = "AtClose c (Write c)"])
  next
    case (AtClose c r)
    with h k have "closes \<sigma> = []"
      using handler_ok_def [of \<sigma>] by auto
    with AtClose show ?thesis
      by (auto intro!: exI [where x = "Finished c r"])
  next
    case (Finished c r)
    with g show ?thesis by simp
  qed
  then obtain \<sigma>' g' where r: "run k (goroutines \<sigma> ! k) \<sigma> = Some \<sigma>'"
    and u: "goroutines \<sigma>' = (goroutines \<sigma>)[k := g']"
    and d: "remaining g' < remaining (goroutines \<sigma> ! k)"
    by blast
  from k d have "todo \<sigma>' < todo \<sigma>"
    by (simp add: todo_def u sum_list_update_less)
  with r k show ?thesis by simp
qed

lemma progress:
  assumes i: "invariant c0 \<sigma>" and t: "0 < todo \<sigma>"
  shows "\<exists>k \<sigma>'. step (Run k) \<sigma> = Some \<sigma>' \<and> todo \<sigma>' < todo \<sigma>"
proof -
  from i have h: "handler_ok \<sigma>" and m: "mutex_ok \<sigma>"
    by (simp_all add: invariant_def)
  from t obtain k where k: "k < length (goroutines \<sigma>)" "0 < remaining (goroutines \<sigma> ! k)"
    using sum_list_pos [of "goroutines \<sigma>"] by (auto simp: todo_def)
  show ?thesis
  proof (cases "mu_locked (store \<sigma>)")
    case False
    with run_progress [OF h m k] show ?thesis by blast
  next
    case True
    with m obtain j where "idx holds (goroutines \<sigma>) = {j}"
      by (auto simp: mutex_ok_def)
    then have j: "j < length (goroutines \<sigma>)" "holds (goroutines \<sigma> ! j)"
      using idx_mem [of j holds "goroutines \<sigma>"] by auto
    then have "0 < remaining (goroutines \<sigma> ! j)" "goroutines \<sigma> ! j \<noteq> AtLock"
      by (cases "goroutines \<sigma> ! j"; simp)+
    with run_progress [OF h m j(1)] show ?thesis by blast
  qed
qed

lemma can_finish:
  "invariant c0 \<sigma> \<Longrightarrow> \<exists>ys. todo (exec ys \<sigma>) = 0"
proof (induction "todo \<sigma>" arbitrary: \<sigma> rule: less_induct)
  case less
  show ?case
  proof (cases "todo \<sigma> = 0")
    case True
    then have "todo (exec [] \<sigma>) = 0" by simp
    then show ?thesis by blast
  next
    case False
    with less.prems obtain k \<sigma>' where s: "step (Run k) \<sigma> = Some \<sigma>'" "todo \<sigma>' < todo \<sigma>"
      using progress [of c0 \<sigma>] by auto
    from less.prems s(1) have "invariant c0 \<sigma>'" by (rule invariant_step)
    with less.hyps [OF s(2)] obtain ys where "todo (exec ys \<sigma>') = 0" by blast
    with s(1) have "todo (exec (Run k # ys) \<sigma>) = 0" by simp
    then show ?thesis by blast
  qed
qed

lemma todo_zero:
  assumes "todo \<sigma> = 0" and "i < length (goroutines \<sigma>)"
  shows "\<exists>c r. goroutines \<sigma> ! i = Finished c r"
proof -
  from assms(2) have "goroutines \<sigma> ! i \<in> set (goroutines \<sigma>)" by simp
  with assms(1) have "remaining (goroutines \<sigma> ! i) = 0"
    by (simp add: todo_def)
  then show ?thesis
    by (cases "goroutines \<sigma> ! i") simp_all
qed

subsection \<open>One call of \<^verbatim>\<open>get\<close> receives the note\<close>

lemma got_carried: "got g = Some c \<Longrightarrow> carried g = c \<and> past g"
  by (cases g) simp_all

lemma got_returned: "got g \<noteq> None \<Longrightarrow> got g = Some (carried g)"
  by (cases g) simp_all

lemma once_done_step:
  assumes "once_done (store \<sigma>)" and "step x \<sigma> = Some \<sigma>'"
  shows "once_done (store \<sigma>')"
proof (cases x)
  case (Run k)
  with assms show ?thesis
    by (cases "goroutines \<sigma> ! k")
      (auto simp: mu_Lock_def once_Do_def mu_Unlock_def split: if_splits)
next
  case Signal
  with assms show ?thesis by (auto split: if_splits)
next
  case (Take ev)
  with assms show ?thesis by (cases ev) (auto split: if_splits)
qed

lemma once_done_exec: "once_done (store \<sigma>) \<Longrightarrow> once_done (store (exec ys \<sigma>))"
proof (induction ys arbitrary: \<sigma>)
  case Nil
  then show ?case by simp
next
  case (Cons y ys)
  then show ?case
    by (cases "step y \<sigma>") (auto dest: once_done_step)
qed

lemma exec_two_requests: "exec two_requests (init 2 (Some [104, 105])) = served"
  by (simp add: two_requests_def init_def served_def newStore_def mu_Lock_def mu_Unlock_def
        once_Do_def Write_def eval_nat_numeral)

text \<open>
  Claim C1. A store is constructed with a note \<open>P\<close> that is not empty, and \<open>n\<close> requests,
  two or more, call \<^verbatim>\<open>get\<close> on it, their steps interleaved in any order \<open>xs\<close>. At every
  moment at most one call has returned a note. When all calls have returned, exactly one
  has returned \<open>P\<close> and every other one nil. Once \<^verbatim>\<open>once.Do\<close> has run, the store stays
  released and empty, and a call that reaches \<^verbatim>\<open>once.Do\<close> from then on gets nil. From
  every moment on, the calls can all be brought to return.
\<close>

theorem exactly_one_get_returns_the_note:
  assumes "P \<noteq> []" and "2 \<le> n" and "\<sigma> = exec xs (init n (Some P))"
  shows "length (goroutines \<sigma>) = n \<and>
    (\<forall>i<n. \<forall>j<n. \<forall>p q.
       got (goroutines \<sigma> ! i) = Some (Some p) \<and> got (goroutines \<sigma> ! j) = Some (Some q) \<longrightarrow>
       i = j) \<and>
    ((\<forall>i<n. got (goroutines \<sigma> ! i) \<noteq> None) \<longrightarrow>
       (\<exists>w<n. got (goroutines \<sigma> ! w) = Some (Some P) \<and>
          (\<forall>j<n. j \<noteq> w \<longrightarrow> got (goroutines \<sigma> ! j) = Some None))) \<and>
    (once_done (store \<sigma>) \<longrightarrow>
       (\<forall>i<n. goroutines \<sigma> ! i = AtOnce \<longrightarrow>
          (\<exists>\<sigma>'. step (Run i) \<sigma> = Some \<sigma>' \<and> goroutines \<sigma>' ! i = AtReturn None)) \<and>
       (\<forall>ys. once_done (store (exec ys \<sigma>)) \<and> content (store (exec ys \<sigma>)) = None)) \<and>
    (\<exists>ys. \<forall>i<n. got (goroutines (exec ys \<sigma>) ! i) \<noteq> None)"
proof -
  from assms(3) have i: "invariant (Some P) \<sigma>" and l: "length (goroutines \<sigma>) = n"
    using reachable by blast+
  then have o: "once_ok (Some P) \<sigma>" by (simp add: invariant_def)
  have unique: "i = j"
    if "i < n" "j < n" "got (goroutines \<sigma> ! i) = Some (Some p)"
      "got (goroutines \<sigma> ! j) = Some (Some q)" for i j p q
  proof -
    from that l have "i \<in> idx wins (goroutines \<sigma>)" "j \<in> idx wins (goroutines \<sigma>)"
      by (auto simp: idx_mem wins_def dest: got_carried)
    with o show ?thesis by (rule once_ok_unique)
  qed
  have winner: "\<exists>w<n. got (goroutines \<sigma> ! w) = Some (Some P) \<and>
      (\<forall>j<n. j \<noteq> w \<longrightarrow> got (goroutines \<sigma> ! j) = Some None)"
    if all: "\<forall>i<n. got (goroutines \<sigma> ! i) \<noteq> None"
  proof -
    from assms(2) all have "got (goroutines \<sigma> ! 0) \<noteq> None" by simp
    then have "past (goroutines \<sigma> ! 0)"
      using got_carried by (cases "got (goroutines \<sigma> ! 0)") auto
    with assms(2) l have "0 \<in> idx past (goroutines \<sigma>)"
      by (simp add: idx_mem)
    then have "idx past (goroutines \<sigma>) \<noteq> {}" by blast
    with o obtain w where w: "idx wins (goroutines \<sigma>) = {w}"
      by (auto simp: once_ok_def split: if_splits)
    then have wn: "w < n" and ww: "wins (goroutines \<sigma> ! w)"
      using idx_mem [of w wins "goroutines \<sigma>"] l by auto
    from o wn l ww have "carried (goroutines \<sigma> ! w) = Some P"
      by (auto simp: once_ok_def wins_def)
    with all wn have gw: "got (goroutines \<sigma> ! w) = Some (Some P)"
      using got_returned by force
    have "got (goroutines \<sigma> ! j) = Some None" if "j < n" "j \<noteq> w" for j
    proof -
      from that w l have "\<not> wins (goroutines \<sigma> ! j)"
        using idx_mem [of j wins "goroutines \<sigma>"] by auto
      then have "carried (goroutines \<sigma> ! j) = None" by (simp add: wins_def)
      with all that show ?thesis using got_returned by force
    qed
    with wn gw show ?thesis by blast
  qed
  have later: "\<exists>\<sigma>'. step (Run i) \<sigma> = Some \<sigma>' \<and> goroutines \<sigma>' ! i = AtReturn None"
    if "once_done (store \<sigma>)" "i < n" "goroutines \<sigma> ! i = AtOnce" for i
    using that l by (simp add: once_Do_def)
  have released: "once_done (store (exec ys \<sigma>)) \<and> content (store (exec ys \<sigma>)) = None"
    if d: "once_done (store \<sigma>)" for ys
  proof -
    from d have d': "once_done (store (exec ys \<sigma>))" by (rule once_done_exec)
    from i have "once_ok (Some P) (exec ys \<sigma>)"
      using invariant_exec [of "Some P" \<sigma> ys] by (simp add: invariant_def)
    with d' show ?thesis by (simp add: once_ok_def)
  qed
  have finish: "\<exists>ys. \<forall>i<n. got (goroutines (exec ys \<sigma>) ! i) \<noteq> None"
  proof -
    from can_finish [OF i] obtain ys where z: "todo (exec ys \<sigma>) = 0" by blast
    have "got (goroutines (exec ys \<sigma>) ! i) \<noteq> None" if "i < n" for i
    proof -
      from that l have "i < length (goroutines (exec ys \<sigma>))" by (simp add: exec_length)
      from todo_zero [OF z this] show ?thesis by auto
    qed
    then show ?thesis by blast
  qed
  from l unique winner later released finish show ?thesis by blast
qed

theorem exactly_one_get_returns_the_note_witness:
  "[104, 105] \<noteq> ([] :: byte list) \<and> (2 :: nat) \<le> 2 \<and>
   served = exec two_requests (init 2 (Some [104, 105])) \<and>
   map got (goroutines served) = [Some (Some [104, 105]), Some None] \<and>
   (\<exists>w<2. got (goroutines served ! w) = Some (Some [104, 105]) \<and>
      (\<forall>j<2. j \<noteq> w \<longrightarrow> got (goroutines served ! j) = Some None))"
proof -
  have h: "served = exec two_requests (init 2 (Some [104, 105]))"
    by (simp add: exec_two_requests)
  have g: "map got (goroutines served) = [Some (Some [104, 105]), Some None]"
    by (simp add: served_def)
  have a: "\<forall>i<2. got (goroutines served ! i) \<noteq> None"
    by (simp add: served_def less_Suc_eq eval_nat_numeral)
  have "\<exists>w<2. got (goroutines served ! w) = Some (Some [104, 105]) \<and>
      (\<forall>j<2. j \<noteq> w \<longrightarrow> got (goroutines served ! j) = Some None)"
    using exactly_one_get_returns_the_note [of "[104, 105]" 2 served two_requests, OF _ _ h] a
    by simp
  with h g show ?thesis by simp
qed

subsection \<open>What the handler answers\<close>



subsection \<open>The two signals\<close>











end
